theory Spec2Isabelle
  imports Main
begin

section \<open>The snapshottable map of \<^verbatim>\<open>src/py_playground/snapshot_map.py\<close>\<close>

subsection \<open>Data model\<close>

text \<open>
  \<^verbatim>\<open>HistoryEntry\<close> is the dataclass with the fields \<^verbatim>\<open>snap_id: int\<close> and
  \<^verbatim>\<open>value: int | None\<close>. Python's \<^verbatim>\<open>None\<close> value (the tombstone) is \<open>None\<close> of
  \<open>int option\<close>; the field \<^verbatim>\<open>value\<close> is called \<open>entry_value\<close> here.
\<close>

record HistoryEntry =
  snap_id :: int
  entry_value :: "int option"

text \<open>
  The two attributes of a \<^verbatim>\<open>SnapshottableMap\<close> instance: the dictionary
  \<^verbatim>\<open>_key_history_store\<close> from keys to history lists, and the counter
  \<^verbatim>\<open>_next_snap_id\<close>. Every history list belongs to one key and every entry to one
  list (\<^verbatim>\<open>put\<close> creates both), so in-place mutation is modelled by replacing the
  list stored under the key.
\<close>

record SnapshottableMap =
  key_history_store :: "string \<rightharpoonup> HistoryEntry list"
  next_snap_id :: int

text \<open>
  The exceptions the class raises. Both \<^verbatim>\<open>KeyError\<close> and \<^verbatim>\<open>IndexError\<close> carry a
  message; the message (without the formatted key and numbers) tells the raise sites apart.
\<close>

datatype message =
    NotInCurrentState     \<comment> \<open>\<^verbatim>\<open>Key '{k}' not found in current map state.\<close>\<close>
  | MaybeDeleted          \<comment> \<open>\<^verbatim>\<open>Key '{k}' not found (it may have been deleted).\<close>\<close>
  | InvalidSnapId         \<comment> \<open>\<^verbatim>\<open>Invalid snap_id: {snap_id}. ...\<close>\<close>
  | NeverExisted          \<comment> \<open>\<^verbatim>\<open>Key '{k}' never existed, so it's not in snapshot {snap_id}.\<close>\<close>
  | DeletedInSnapshot     \<comment> \<open>\<^verbatim>\<open>Key '{k}' did not exist in snapshot {snap_id} (it was deleted).\<close>\<close>
  | ListIndexOutOfRange   \<comment> \<open>raised by Python itself on \<^verbatim>\<open>history[i]\<close> out of range\<close>

datatype error = KeyError message | IndexError message

subsection \<open>Operations\<close>

text \<open>\<^verbatim>\<open>__init__\<close>: an empty dictionary and the counter at 0.\<close>

definition init :: SnapshottableMap where
  "init = \<lparr>key_history_store = Map.empty, next_snap_id = 0\<rparr>"

text \<open>\<^verbatim>\<open>take_snapshot\<close> returns the counter and increments it.\<close>

definition take_snapshot :: "SnapshottableMap \<Rightarrow> int \<times> SnapshottableMap" where
  "take_snapshot s = (next_snap_id s, s\<lparr>next_snap_id := next_snap_id s + 1\<rparr>)"

text \<open>
  \<^verbatim>\<open>put\<close>: \<^verbatim>\<open>setdefault(k, [])\<close> yields the stored list or stores a new empty one;
  then the last entry is overwritten when the list is non-empty and its last entry bears
  the counter's value, and a new entry is appended otherwise. \<^verbatim>\<open>history[-1]\<close> is only
  read behind the test that the list is non-empty.
\<close>

definition put :: "SnapshottableMap \<Rightarrow> string \<Rightarrow> int option \<Rightarrow> SnapshottableMap" where
  "put s k v =
     (let history = (case key_history_store s k of None \<Rightarrow> [] | Some h \<Rightarrow> h) in
      if history \<noteq> [] \<and> snap_id (last history) = next_snap_id s
      then s\<lparr>key_history_store := (key_history_store s)
               (k \<mapsto> butlast history @ [(last history)\<lparr>entry_value := v\<rparr>])\<rparr>
      else s\<lparr>key_history_store := (key_history_store s)
               (k \<mapsto> history @ [\<lparr>snap_id = next_snap_id s, entry_value = v\<rparr>])\<rparr>)"

text \<open>\<^verbatim>\<open>delete\<close>: \<^verbatim>\<open>put(k, None)\<close> when the key is in the dictionary, nothing otherwise.\<close>

definition delete :: "SnapshottableMap \<Rightarrow> string \<Rightarrow> SnapshottableMap" where
  "delete s k = (if key_history_store s k \<noteq> None then put s k None else s)"

text \<open>
  \<^verbatim>\<open>get\<close> reads only. \<^verbatim>\<open>not history\<close> holds for a missing key and for an empty list.
\<close>

definition get :: "SnapshottableMap \<Rightarrow> string \<Rightarrow> error + int" where
  "get s k =
     (case key_history_store s k of
        None \<Rightarrow> Inl (KeyError NotInCurrentState)
      | Some history \<Rightarrow>
          if history = [] then Inl (KeyError NotInCurrentState)
          else (case entry_value (last history) of
                  None \<Rightarrow> Inl (KeyError MaybeDeleted)
                | Some latest_value \<Rightarrow> Inr latest_value))"

text \<open>
  List subscription \<^verbatim>\<open>xs[i]\<close> as Python evaluates it: \<open>i\<close> from \<open>0\<close> to \<open>len(xs) - 1\<close>
  reads position \<open>i\<close>, \<open>i\<close> from \<open>-len(xs)\<close> to \<open>-1\<close> reads position \<open>len(xs) + i\<close>, and
  every other \<open>i\<close> raises \<^verbatim>\<open>IndexError\<close>.
\<close>

definition py_index :: "'a list \<Rightarrow> int \<Rightarrow> error + 'a" where
  "py_index xs i =
     (if 0 \<le> i \<and> i < int (length xs) then Inr (xs ! nat i)
      else if - int (length xs) \<le> i \<and> i < 0 then Inr (xs ! nat (int (length xs) + i))
      else Inl (IndexError ListIndexOutOfRange))"

text \<open>
  The \<^verbatim>\<open>while left <= right\<close> loop of \<^verbatim>\<open>get_from_snapshot\<close>, on the loop variables
  \<^verbatim>\<open>left\<close>, \<^verbatim>\<open>right\<close> and \<^verbatim>\<open>idx\<close>; \<open>div\<close> on \<open>int\<close> is Python's \<^verbatim>\<open>//\<close>.
\<close>

function get_from_snapshot_loop ::
  "HistoryEntry list \<Rightarrow> int \<Rightarrow> int \<Rightarrow> int \<Rightarrow> int \<Rightarrow> error + int" where
  "get_from_snapshot_loop history sid left right idx =
     (if left \<le> right then
        (case py_index history ((left + right) div 2) of
           Inl e \<Rightarrow> Inl e
         | Inr entry \<Rightarrow>
             if snap_id entry \<le> sid
             then get_from_snapshot_loop history sid ((left + right) div 2 + 1) right
                    ((left + right) div 2)
             else get_from_snapshot_loop history sid left ((left + right) div 2 - 1) idx)
      else Inr idx)"
  by pat_completeness auto
termination
  by (relation "measure (\<lambda>(history, sid, left, right, idx). nat (right - left + 1))") auto

declare get_from_snapshot_loop.simps [simp del]

text \<open>
  \<^verbatim>\<open>get_from_snapshot\<close> reads only. It returns \<open>Inr None\<close> where the source logs an
  error and returns \<^verbatim>\<open>None\<close>.
\<close>

definition get_from_snapshot :: "SnapshottableMap \<Rightarrow> string \<Rightarrow> int \<Rightarrow> error + int option" where
  "get_from_snapshot s k sid =
     (if \<not> (0 \<le> sid \<and> sid < next_snap_id s) then Inl (IndexError InvalidSnapId)
      else
        (case key_history_store s k of
           None \<Rightarrow> Inl (KeyError NeverExisted)
         | Some history \<Rightarrow>
             if history = [] then Inl (KeyError NeverExisted)
             else
               (case get_from_snapshot_loop history sid 0 (int (length history) - 1) (- 1) of
                  Inl e \<Rightarrow> Inl e
                | Inr idx \<Rightarrow>
                    if idx = - 1 then Inr None
                    else
                      (case py_index history idx of
                         Inl e \<Rightarrow> Inl e
                       | Inr entry \<Rightarrow>
                           (case entry_value entry of
                              None \<Rightarrow> Inl (KeyError DeletedInSnapshot)
                            | Some relevant_value \<Rightarrow> Inr (Some relevant_value))))))"

subsection \<open>Sequences of calls\<close>

text \<open>
  A caller's sequence of method calls on one instance. The two reading methods leave the
  instance as it is, whatever they return or raise.
\<close>

datatype call =
    Put string "int option"
  | Delete string
  | Get string
  | TakeSnapshot
  | GetFromSnapshot string int

fun step :: "SnapshottableMap \<Rightarrow> call \<Rightarrow> SnapshottableMap" where
  "step s (Put k v) = put s k v"
| "step s (Delete k) = delete s k"
| "step s (Get k) = s"
| "step s TakeSnapshot = snd (take_snapshot s)"
| "step s (GetFromSnapshot k sid) = s"

definition run :: "SnapshottableMap \<Rightarrow> call list \<Rightarrow> SnapshottableMap" where
  "run s cs = foldl step s cs"

text \<open>The values that the \<^verbatim>\<open>take_snapshot\<close> calls of a sequence return, in order.\<close>

fun returned_ids :: "SnapshottableMap \<Rightarrow> call list \<Rightarrow> int list" where
  "returned_ids s [] = []"
| "returned_ids s (TakeSnapshot # cs) =
     fst (take_snapshot s) # returned_ids (snd (take_snapshot s)) cs"
| "returned_ids s (c # cs) = returned_ids (step s c) cs"

subsection \<open>Notions used in the statements and proofs\<close>

text \<open>
  None of the following is code of the class: these are the notions the statements below
  are written in.
\<close>

text \<open>
  The history of a key, empty for a key that is not in the dictionary: what
  \<^verbatim>\<open>setdefault(k, [])\<close> yields in \<^verbatim>\<open>put\<close>.
\<close>

definition timeline :: "SnapshottableMap \<Rightarrow> string \<Rightarrow> HistoryEntry list" where
  "timeline s k = (case key_history_store s k of None \<Rightarrow> [] | Some h \<Rightarrow> h)"

text \<open>What \<^verbatim>\<open>put\<close> does to the key's history, with the counter at \<open>n\<close>.\<close>

definition put_history :: "HistoryEntry list \<Rightarrow> int \<Rightarrow> int option \<Rightarrow> HistoryEntry list" where
  "put_history h n v =
     (if h \<noteq> [] \<and> snap_id (last h) = n
      then butlast h @ [(last h)\<lparr>entry_value := v\<rparr>]
      else h @ [\<lparr>snap_id = n, entry_value = v\<rparr>])"

text \<open>
  The invariant of the reachable states: every stored history is non-empty, its versions
  increase strictly and lie between \<open>0\<close> and the counter.
\<close>

definition wf_history :: "int \<Rightarrow> HistoryEntry list \<Rightarrow> bool" where
  "wf_history n h \<longleftrightarrow>
     h \<noteq> [] \<and> sorted_wrt (<) (map snap_id h) \<and> (\<forall>e \<in> set h. 0 \<le> snap_id e \<and> snap_id e \<le> n)"

definition invar :: "SnapshottableMap \<Rightarrow> bool" where
  "invar s \<longleftrightarrow>
     0 \<le> next_snap_id s \<and> (\<forall>k h. key_history_store s k = Some h \<longrightarrow> wf_history (next_snap_id s) h)"

text \<open>The calls that write a key: \<open>is_put k\<close> a \<^verbatim>\<open>put\<close> of \<open>k\<close>.\<close>

fun is_put :: "string \<Rightarrow> call \<Rightarrow> bool" where
  "is_put k (Put k' v) = (k' = k)"
| "is_put k c = False"

text \<open>
  The linear scan that the binary search is compared with: it visits the positions from left
  to right and keeps the last one whose version is \<open>\<le> sid\<close>, starting from \<open>-1\<close>.
\<close>

definition linear_scan :: "HistoryEntry list \<Rightarrow> int \<Rightarrow> int" where
  "linear_scan history sid =
     foldl (\<lambda>idx i. if snap_id (history ! i) \<le> sid then int i else idx) (- 1) [0..<length history]"

text \<open>
  Position \<open>j\<close> splits a history at version \<open>v\<close>: versions \<open>\<le> v\<close> up to \<open>j\<close>, versions \<open>> v\<close>
  after it.
\<close>

definition splits_at :: "HistoryEntry list \<Rightarrow> int \<Rightarrow> int \<Rightarrow> bool" where
  "splits_at h v j \<longleftrightarrow>
     - 1 \<le> j \<and> j < int (length h)
     \<and> (\<forall>i. 0 \<le> i \<and> i \<le> j \<longrightarrow> snap_id (h ! nat i) \<le> v)
     \<and> (\<forall>i. j < i \<and> i < int (length h) \<longrightarrow> v < snap_id (h ! nat i))"

text \<open>
  The last entry of a history whose version is \<open>\<le> v\<close>, if there is one, and what
  \<^verbatim>\<open>get_from_snapshot\<close> makes of it.
\<close>

definition resolve :: "HistoryEntry list \<Rightarrow> int \<Rightarrow> HistoryEntry option" where
  "resolve h v =
     (if filter (\<lambda>e. snap_id e \<le> v) h = [] then None
      else Some (last (filter (\<lambda>e. snap_id e \<le> v) h)))"

definition outcome :: "HistoryEntry option \<Rightarrow> error + int option" where
  "outcome r =
     (case r of
        None \<Rightarrow> Inr None
      | Some e \<Rightarrow>
          (case entry_value e of
             None \<Rightarrow> Inl (KeyError DeletedInSnapshot)
           | Some x \<Rightarrow> Inr (Some x)))"

text \<open>
  How an outcome \<open>g\<close> of \<^verbatim>\<open>get(k)\<close> at the moment of a snapshot shows in a later
  \<^verbatim>\<open>get_from_snapshot\<close> of that snapshot; \<open>written_later\<close> says whether the key is in the
  dictionary at the time of the later call.
\<close>

definition snapshot_outcome :: "error + int \<Rightarrow> bool \<Rightarrow> error + int option" where
  "snapshot_outcome g written_later =
     (case g of
        Inr x \<Rightarrow> Inr (Some x)
      | Inl e \<Rightarrow>
          if e = KeyError MaybeDeleted then Inl (KeyError DeletedInSnapshot)
          else if written_later then Inr None
          else Inl (KeyError NeverExisted))"

text \<open>
  The counter is beyond \<open>v\<close>, and the key's history is \<open>base\<close> followed by entries of versions
  beyond \<open>v\<close>.
\<close>

definition extends_after :: "int \<Rightarrow> HistoryEntry list \<Rightarrow> SnapshottableMap \<Rightarrow> string \<Rightarrow> bool" where
  "extends_after v base s k \<longleftrightarrow>
     v < next_snap_id s \<and> (\<exists>ext. timeline s k = base @ ext \<and> (\<forall>e \<in> set ext. v < snap_id e))"

text \<open>
  \<open>is_write k\<close>: a \<^verbatim>\<open>put\<close> or a \<^verbatim>\<open>delete\<close> of \<open>k\<close>; \<open>written_value\<close>: the value such a call
  writes, the tombstone for a \<^verbatim>\<open>delete\<close>.
\<close>

fun is_write :: "string \<Rightarrow> call \<Rightarrow> bool" where
  "is_write k (Put k' v) = (k' = k)"
| "is_write k (Delete k') = (k' = k)"
| "is_write k c = False"

fun written_value :: "call \<Rightarrow> int option" where
  "written_value (Put k v) = v"
| "written_value c = None"

section \<open>Basic facts\<close>

lemma put_eq:
  "put s k v = s\<lparr>key_history_store :=
     (key_history_store s)(k \<mapsto> put_history (timeline s k) (next_snap_id s) v)\<rparr>"
  by (simp add: put_def put_history_def timeline_def Let_def)

lemma next_snap_id_put [simp]: "next_snap_id (put s k v) = next_snap_id s"
  by (simp add: put_eq)

lemma next_snap_id_delete [simp]: "next_snap_id (delete s k) = next_snap_id s"
  by (simp add: delete_def)

lemma timeline_put:
  "timeline (put s k v) k' =
     (if k' = k then put_history (timeline s k) (next_snap_id s) v else timeline s k')"
  by (simp add: put_eq timeline_def)

lemma timeline_delete:
  "timeline (delete s k) k' =
     (if k' = k \<and> key_history_store s k \<noteq> None
      then put_history (timeline s k) (next_snap_id s) None else timeline s k')"
  by (auto simp: delete_def timeline_put)

lemma run_Nil [simp]: "run s [] = s"
  by (simp add: run_def)

lemma run_Cons [simp]: "run s (c # cs) = run (step s c) cs"
  by (simp add: run_def)

lemma run_append [simp]: "run s (cs @ ds) = run (run s cs) ds"
  by (simp add: run_def)

lemma put_history_not_Nil [simp]: "put_history h n v \<noteq> []"
  by (simp add: put_history_def)

lemma map_snap_id_overwrite:
  "h \<noteq> [] \<Longrightarrow> map snap_id (butlast h @ [(last h)\<lparr>entry_value := v\<rparr>]) = map snap_id h"
  by (induction h) auto

lemma strictly_sorted_le_last:
  "sorted_wrt (<) (xs :: int list) \<Longrightarrow> x \<in> set xs \<Longrightarrow> x \<le> last xs"
proof (induction xs)
  case Nil
  then show ?case by simp
next
  case (Cons a xs)
  show ?case
  proof (cases "xs = []")
    case True
    with Cons.prems show ?thesis by simp
  next
    case False
    then have l: "last xs \<in> set xs" by simp
    show ?thesis
    proof (cases "x = a")
      case True
      have "a < last xs" using Cons.prems(1) l by simp
      then show ?thesis using True \<open>xs \<noteq> []\<close> by simp
    next
      case False
      then have "x \<in> set xs" using Cons.prems(2) by simp
      moreover have "sorted_wrt (<) xs" using Cons.prems(1) by simp
      ultimately have "x \<le> last xs" by (rule Cons.IH [rotated])
      then show ?thesis using \<open>xs \<noteq> []\<close> by simp
    qed
  qed
qed

lemma wf_history_alt:
  "wf_history n h \<longleftrightarrow>
     h \<noteq> [] \<and> sorted_wrt (<) (map snap_id h) \<and> (\<forall>x \<in> set (map snap_id h). 0 \<le> x \<and> x \<le> n)"
  by (auto simp: wf_history_def)

lemma wf_history_put:
  assumes "h = [] \<or> wf_history n h" and "0 \<le> n"
  shows "wf_history n (put_history h n v)"
proof (cases "h \<noteq> [] \<and> snap_id (last h) = n")
  case True
  with assms have wf: "wf_history n h" by auto
  have "map snap_id (put_history h n v) = map snap_id h"
    using True map_snap_id_overwrite [of h v] by (simp add: put_history_def)
  then show ?thesis
    using wf by (simp add: wf_history_alt)
next
  case False
  have below: "\<forall>e \<in> set h. snap_id e < n"
  proof
    fix e assume e: "e \<in> set h"
    with assms have wf: "wf_history n h" by auto
    then have "snap_id e \<le> last (map snap_id h)"
      using e by (intro strictly_sorted_le_last) (auto simp: wf_history_def)
    moreover have "last (map snap_id h) = snap_id (last h)"
      using e by (cases h) (simp_all add: last_map)
    moreover have "snap_id (last h) \<le> n"
      using wf e by (auto simp: wf_history_def)
    moreover have "snap_id (last h) \<noteq> n"
      using False e by auto
    ultimately show "snap_id e < n" by simp
  qed
  have "put_history h n v = h @ [\<lparr>snap_id = n, entry_value = v\<rparr>]"
    using False by (auto simp: put_history_def)
  moreover have "sorted_wrt (<) (map snap_id h)"
    using assms by (auto simp: wf_history_def)
  moreover have "\<forall>e \<in> set h. 0 \<le> snap_id e"
    using assms by (auto simp: wf_history_def)
  ultimately show ?thesis
    using below assms(2) by (auto simp: wf_history_def sorted_wrt_append)
qed

lemma wf_history_mono: "wf_history n h \<Longrightarrow> n \<le> m \<Longrightarrow> wf_history m h"
  by (auto simp: wf_history_def)

lemma invar_init: "invar init"
  by (simp add: invar_def init_def)

lemma invar_timeline: "invar s \<Longrightarrow> timeline s k = [] \<or> wf_history (next_snap_id s) (timeline s k)"
  by (auto simp: invar_def timeline_def split: option.splits)

lemma invar_put: "invar s \<Longrightarrow> invar (put s k v)"
  using invar_timeline [of s k]
  by (auto simp: invar_def put_eq wf_history_put)

lemma invar_delete: "invar s \<Longrightarrow> invar (delete s k)"
  by (simp add: delete_def invar_put)

lemma invar_take_snapshot: "invar s \<Longrightarrow> invar (snd (take_snapshot s))"
  by (force simp: invar_def take_snapshot_def intro: wf_history_mono [of "next_snap_id s"])

lemma invar_step: "invar s \<Longrightarrow> invar (step s c)"
  by (cases c) (simp_all add: invar_put invar_delete invar_take_snapshot)

lemma invar_run: "invar s \<Longrightarrow> invar (run s cs)"
  by (induction cs arbitrary: s) (simp_all add: invar_step)

lemma next_snap_id_take_snapshot [simp]:
  "next_snap_id (snd (take_snapshot s)) = next_snap_id s + 1"
  by (simp add: take_snapshot_def)

lemma key_history_store_take_snapshot [simp]:
  "key_history_store (snd (take_snapshot s)) = key_history_store s"
  by (simp add: take_snapshot_def)

lemma timeline_take_snapshot [simp]: "timeline (snd (take_snapshot s)) k = timeline s k"
  by (simp add: timeline_def)

lemma returned_ids_from:
  "returned_ids s cs =
     [next_snap_id s .. next_snap_id s + int (count_list cs TakeSnapshot) - 1]"
proof (induction s cs rule: returned_ids.induct)
  case (2 s cs)
  have "[next_snap_id s .. next_snap_id s + int (count_list (TakeSnapshot # cs) TakeSnapshot) - 1]
      = next_snap_id s # [next_snap_id s + 1 .. next_snap_id s + 1 + int (count_list cs TakeSnapshot) - 1]"
    by (subst upto_rec1) (simp_all add: add.commute add.left_commute)
  with 2 show ?case by (simp add: take_snapshot_def)
qed simp_all

lemma next_snap_id_step:
  "next_snap_id (step s c) = (if c = TakeSnapshot then next_snap_id s + 1 else next_snap_id s)"
  by (cases c) simp_all

lemma next_snap_id_run:
  "next_snap_id (run s cs) = next_snap_id s + int (count_list cs TakeSnapshot)"
  by (induction cs arbitrary: s) (simp_all add: next_snap_id_step)

lemma put_history_twice: "put_history (put_history h n v) n w = put_history h n w"
  by (simp add: put_history_def)

lemma put_put: "put (put s k v) k w = put s k w"
  by (simp add: put_eq [of "put s k v"] timeline_put put_history_twice) (simp add: put_eq)

lemma run_puts: "vs \<noteq> [] \<Longrightarrow> run s (map (Put k) vs) = put s k (last vs)"
proof (induction vs arbitrary: s)
  case Nil
  then show ?case by simp
next
  case (Cons v vs)
  then show ?case by (cases "vs = []") (simp_all add: put_put)
qed

lemma key_history_store_put:
  "key_history_store (put s k v) k' = None \<longleftrightarrow> k' \<noteq> k \<and> key_history_store s k' = None"
  by (simp add: put_eq)

lemma key_history_store_delete:
  "key_history_store (delete s k) k' = None \<longleftrightarrow> key_history_store s k' = None"
  by (auto simp: delete_def key_history_store_put)

lemma key_history_store_step:
  "key_history_store (step s c) k = None \<longleftrightarrow> key_history_store s k = None \<and> \<not> is_put k c"
  by (cases c) (auto simp: key_history_store_put key_history_store_delete)

lemma key_history_store_run:
  "key_history_store (run s cs) k = None \<longleftrightarrow>
     key_history_store s k = None \<and> \<not> list_ex (is_put k) cs"
  by (induction cs arbitrary: s) (auto simp: key_history_store_step)

lemma py_index_in_range:
  "0 \<le> i \<Longrightarrow> i < int (length xs) \<Longrightarrow> py_index xs i = Inr (xs ! nat i)"
  by (simp add: py_index_def)

lemma loop_stop:
  "\<not> left \<le> right \<Longrightarrow> get_from_snapshot_loop h v left right idx = Inr idx"
  by (subst get_from_snapshot_loop.simps) simp

lemma loop_go_right:
  assumes "left \<le> right" "0 \<le> left" "right < int (length h)"
    and "snap_id (h ! nat ((left + right) div 2)) \<le> v"
  shows "get_from_snapshot_loop h v left right idx =
         get_from_snapshot_loop h v ((left + right) div 2 + 1) right ((left + right) div 2)"
proof -
  have "0 \<le> (left + right) div 2" "(left + right) div 2 < int (length h)"
    using assms(1-3) by simp_all
  then have "py_index h ((left + right) div 2) = Inr (h ! nat ((left + right) div 2))"
    by (rule py_index_in_range)
  then show ?thesis
    using assms(1,4) by (subst get_from_snapshot_loop.simps) simp
qed

lemma loop_go_left:
  assumes "left \<le> right" "0 \<le> left" "right < int (length h)"
    and "\<not> snap_id (h ! nat ((left + right) div 2)) \<le> v"
  shows "get_from_snapshot_loop h v left right idx =
         get_from_snapshot_loop h v left ((left + right) div 2 - 1) idx"
proof -
  have "0 \<le> (left + right) div 2" "(left + right) div 2 < int (length h)"
    using assms(1-3) by simp_all
  then have "py_index h ((left + right) div 2) = Inr (h ! nat ((left + right) div 2))"
    by (rule py_index_in_range)
  then show ?thesis
    using assms(1,4) by (subst get_from_snapshot_loop.simps) simp
qed

text \<open>The loop never reads outside the list, sorted or not.\<close>

lemma loop_returns:
  "0 \<le> left \<Longrightarrow> right < int (length h) \<Longrightarrow> - 1 \<le> idx \<Longrightarrow> idx < int (length h) \<Longrightarrow>
   \<exists>j. get_from_snapshot_loop h v left right idx = Inr j \<and> - 1 \<le> j \<and> j < int (length h)"
proof (induction "nat (right - left + 1)" arbitrary: left right idx rule: less_induct)
  case less
  show ?case
  proof (cases "left \<le> right")
    case False
    then show ?thesis using less.prems by (simp add: loop_stop)
  next
    case True
    let ?mid = "(left + right) div 2"
    have mid: "left \<le> ?mid" "?mid \<le> right" using True by simp_all
    show ?thesis
    proof (cases "snap_id (h ! nat ?mid) \<le> v")
      case le: True
      have "\<exists>j. get_from_snapshot_loop h v (?mid + 1) right ?mid = Inr j
                \<and> - 1 \<le> j \<and> j < int (length h)"
        using less.prems mid by (intro less.hyps) simp_all
      then show ?thesis
        using loop_go_right [OF True less.prems(1,2) le] by simp
    next
      case gt: False
      have "\<exists>j. get_from_snapshot_loop h v left (?mid - 1) idx = Inr j
                \<and> - 1 \<le> j \<and> j < int (length h)"
        using less.prems mid by (intro less.hyps) simp_all
      then show ?thesis
        using loop_go_left [OF True less.prems(1,2) gt] by simp
    qed
  qed
qed

text \<open>
  On a list whose versions increase (weakly), the loop splits the list: positions up to
  the result hold versions \<open>\<le> v\<close>, the positions after it hold versions \<open>> v\<close>.
\<close>

lemma loop_splits:
  assumes mono: "\<And>i j. 0 \<le> i \<Longrightarrow> i \<le> j \<Longrightarrow> j < int (length h) \<Longrightarrow>
                   snap_id (h ! nat i) \<le> snap_id (h ! nat j)"
  shows "0 \<le> left \<Longrightarrow> right < int (length h) \<Longrightarrow> left \<le> right + 1 \<Longrightarrow> idx = left - 1 \<Longrightarrow>
   (\<And>i. 0 \<le> i \<Longrightarrow> i < left \<Longrightarrow> snap_id (h ! nat i) \<le> v) \<Longrightarrow>
   (\<And>i. right < i \<Longrightarrow> i < int (length h) \<Longrightarrow> v < snap_id (h ! nat i)) \<Longrightarrow>
   \<exists>j. get_from_snapshot_loop h v left right idx = Inr j \<and> - 1 \<le> j \<and> j < int (length h)
       \<and> (\<forall>i. 0 \<le> i \<and> i \<le> j \<longrightarrow> snap_id (h ! nat i) \<le> v)
       \<and> (\<forall>i. j < i \<and> i < int (length h) \<longrightarrow> v < snap_id (h ! nat i))"
proof (induction "nat (right - left + 1)" arbitrary: left right idx rule: less_induct)
  case less
  show ?case
  proof (cases "left \<le> right")
    case False
    then have "right = idx" using less.prems(3,4) by simp
    then show ?thesis
      using False less.prems by (auto simp: loop_stop)
  next
    case True
    let ?mid = "(left + right) div 2"
    have mid: "left \<le> ?mid" "?mid \<le> right" using True by simp_all
    show ?thesis
    proof (cases "snap_id (h ! nat ?mid) \<le> v")
      case le: True
      have below: "snap_id (h ! nat i) \<le> v" if "0 \<le> i" "i < ?mid + 1" for i
      proof -
        have "snap_id (h ! nat i) \<le> snap_id (h ! nat ?mid)"
          using that mid less.prems(2) by (intro mono) simp_all
        with le show ?thesis by simp
      qed
      have "\<exists>j. get_from_snapshot_loop h v (?mid + 1) right ?mid = Inr j
                \<and> - 1 \<le> j \<and> j < int (length h)
                \<and> (\<forall>i. 0 \<le> i \<and> i \<le> j \<longrightarrow> snap_id (h ! nat i) \<le> v)
                \<and> (\<forall>i. j < i \<and> i < int (length h) \<longrightarrow> v < snap_id (h ! nat i))"
      proof (rule less.hyps)
        show "nat (right - (?mid + 1) + 1) < nat (right - left + 1)" using mid by simp
        show "0 \<le> ?mid + 1" using mid less.prems(1) by simp
        show "right < int (length h)" by (rule less.prems(2))
        show "?mid + 1 \<le> right + 1" using mid by simp
        show "?mid = ?mid + 1 - 1" by simp
        show "\<And>i. 0 \<le> i \<Longrightarrow> i < ?mid + 1 \<Longrightarrow> snap_id (h ! nat i) \<le> v" by (rule below)
        show "\<And>i. right < i \<Longrightarrow> i < int (length h) \<Longrightarrow> v < snap_id (h ! nat i)"
          by (rule less.prems(6))
      qed
      then show ?thesis
        using loop_go_right [OF True less.prems(1,2) le] by simp
    next
      case gt: False
      have above: "v < snap_id (h ! nat i)" if "?mid - 1 < i" "i < int (length h)" for i
      proof -
        have "snap_id (h ! nat ?mid) \<le> snap_id (h ! nat i)"
          using that mid less.prems(1) by (intro mono) simp_all
        with gt show ?thesis by simp
      qed
      have "\<exists>j. get_from_snapshot_loop h v left (?mid - 1) idx = Inr j
                \<and> - 1 \<le> j \<and> j < int (length h)
                \<and> (\<forall>i. 0 \<le> i \<and> i \<le> j \<longrightarrow> snap_id (h ! nat i) \<le> v)
                \<and> (\<forall>i. j < i \<and> i < int (length h) \<longrightarrow> v < snap_id (h ! nat i))"
      proof (rule less.hyps)
        show "nat (?mid - 1 - left + 1) < nat (right - left + 1)" using mid by simp
        show "0 \<le> left" by (rule less.prems(1))
        show "?mid - 1 < int (length h)" using mid less.prems(2) by simp
        show "left \<le> ?mid - 1 + 1" using mid by simp
        show "idx = left - 1" by (rule less.prems(4))
        show "\<And>i. 0 \<le> i \<Longrightarrow> i < left \<Longrightarrow> snap_id (h ! nat i) \<le> v" by (rule less.prems(5))
        show "\<And>i. ?mid - 1 < i \<Longrightarrow> i < int (length h) \<Longrightarrow> v < snap_id (h ! nat i)"
          by (rule above)
      qed
      then show ?thesis
        using loop_go_left [OF True less.prems(1,2) gt] by simp
    qed
  qed
qed

lemma loop_sorted:
  assumes "sorted (map snap_id h)"
  shows "\<exists>j. get_from_snapshot_loop h v 0 (int (length h) - 1) (- 1) = Inr j \<and> splits_at h v j"
proof -
  have mono: "snap_id (h ! nat i) \<le> snap_id (h ! nat j)"
    if "0 \<le> i" "i \<le> j" "j < int (length h)" for i j
  proof -
    have "map snap_id h ! nat i \<le> map snap_id h ! nat j"
      using that by (intro sorted_nth_mono [OF assms]) simp_all
    then show ?thesis using that by simp
  qed
  have "\<exists>j. get_from_snapshot_loop h v 0 (int (length h) - 1) (- 1) = Inr j
          \<and> - 1 \<le> j \<and> j < int (length h)
          \<and> (\<forall>i. 0 \<le> i \<and> i \<le> j \<longrightarrow> snap_id (h ! nat i) \<le> v)
          \<and> (\<forall>i. j < i \<and> i < int (length h) \<longrightarrow> v < snap_id (h ! nat i))"
    by (rule loop_splits [OF mono]) simp_all
  then show ?thesis by (simp add: splits_at_def)
qed

lemma splits_at_unique: "splits_at h v j \<Longrightarrow> splits_at h v j' \<Longrightarrow> j = j'"
proof (rule ccontr)
  assume a: "splits_at h v j" and b: "splits_at h v j'" and "j \<noteq> j'"
  then consider "j < j'" | "j' < j" by linarith
  then show False
  proof cases
    case 1
    then have "snap_id (h ! nat j') \<le> v" "v < snap_id (h ! nat j')"
      using a b unfolding splits_at_def by force+ 
    then show False by simp
  next
    case 2
    then have "snap_id (h ! nat j) \<le> v" "v < snap_id (h ! nat j)"
      using a b unfolding splits_at_def by force+
    then show False by simp
  qed
qed

lemma splits_at_filter:
  assumes "splits_at h v j"
  shows "filter (\<lambda>e. snap_id e \<le> v) h = take (nat (j + 1)) h"
proof -
  let ?n = "nat (j + 1)"
  have le: "?n \<le> length h" using assms unfolding splits_at_def by linarith
  have "\<forall>e \<in> set (take ?n h). snap_id e \<le> v"
  proof
    fix e assume "e \<in> set (take ?n h)"
    then obtain i where i: "i < ?n" "e = take ?n h ! i"
      by (auto simp: in_set_conv_nth)
    then have "e = h ! nat (int i)" by simp
    moreover have "0 \<le> int i \<and> int i \<le> j" using i by linarith
    ultimately show "snap_id e \<le> v" using assms unfolding splits_at_def by blast
  qed
  then have a: "filter (\<lambda>e. snap_id e \<le> v) (take ?n h) = take ?n h"
    by simp
  have "\<forall>e \<in> set (drop ?n h). \<not> snap_id e \<le> v"
  proof
    fix e assume "e \<in> set (drop ?n h)"
    then obtain i where i: "i < length h - ?n" "e = drop ?n h ! i"
      by (auto simp: in_set_conv_nth)
    then have "e = h ! (?n + i)" using le by simp
    then have "e = h ! nat (int (?n + i))" by (simp only: nat_int)
    moreover have "j < int (?n + i) \<and> int (?n + i) < int (length h)" using i by linarith
    ultimately have "v < snap_id e" using assms unfolding splits_at_def by blast
    then show "\<not> snap_id e \<le> v" by simp
  qed
  then have b: "filter (\<lambda>e. snap_id e \<le> v) (drop ?n h) = []"
    by simp
  have "filter (\<lambda>e. snap_id e \<le> v) h =
        filter (\<lambda>e. snap_id e \<le> v) (take ?n h) @ filter (\<lambda>e. snap_id e \<le> v) (drop ?n h)"
    by (simp flip: filter_append)
  with a b show ?thesis by simp
qed

lemma linear_scan_upto:
  "n \<le> length h \<Longrightarrow>
   (let r = foldl (\<lambda>idx i. if snap_id (h ! i) \<le> v then int i else idx) (- 1) [0..<n] in
    - 1 \<le> r \<and> r < int n \<and> (0 \<le> r \<longrightarrow> snap_id (h ! nat r) \<le> v)
    \<and> (\<forall>i. r < i \<and> i < int n \<longrightarrow> v < snap_id (h ! nat i)))"
proof (induction n)
  case 0
  then show ?case by (auto simp: Let_def)
next
  case (Suc n)
  then have IH: "let r = foldl (\<lambda>idx i. if snap_id (h ! i) \<le> v then int i else idx) (- 1) [0..<n] in
    - 1 \<le> r \<and> r < int n \<and> (0 \<le> r \<longrightarrow> snap_id (h ! nat r) \<le> v)
    \<and> (\<forall>i. r < i \<and> i < int n \<longrightarrow> v < snap_id (h ! nat i))" by simp
  show ?case
  proof (cases "snap_id (h ! n) \<le> v")
    case True
    then show ?thesis by (simp add: Let_def)
  next
    case False
    have "v < snap_id (h ! nat i)"
      if "foldl (\<lambda>idx i. if snap_id (h ! i) \<le> v then int i else idx) (- 1) [0..<n] < i"
         "i < int (Suc n)" for i
    proof (cases "i = int n")
      case True
      with False show ?thesis by simp
    next
      case False
      with that IH show ?thesis by (simp add: Let_def)
    qed
    with False IH show ?thesis by (simp add: Let_def)
  qed
qed

lemma linear_scan_rightmost:
  "- 1 \<le> linear_scan h v \<and> linear_scan h v < int (length h)
   \<and> (0 \<le> linear_scan h v \<longrightarrow> snap_id (h ! nat (linear_scan h v)) \<le> v)
   \<and> (\<forall>i. linear_scan h v < i \<and> i < int (length h) \<longrightarrow> v < snap_id (h ! nat i))"
  using linear_scan_upto [of "length h" h v] by (simp add: linear_scan_def Let_def)

lemma linear_scan_splits:
  assumes "splits_at h v j"
  shows "linear_scan h v = j"
proof (rule ccontr)
  assume ne: "linear_scan h v \<noteq> j"
  note ls = linear_scan_rightmost [of h v]
  from ne consider "linear_scan h v < j" | "j < linear_scan h v" by linarith
  then show False
  proof cases
    case 1
    then have "v < snap_id (h ! nat j)" "snap_id (h ! nat j) \<le> v"
      using ls assms unfolding splits_at_def by force+
    then show False by simp
  next
    case 2
    then have "v < snap_id (h ! nat (linear_scan h v))" "snap_id (h ! nat (linear_scan h v)) \<le> v"
      using ls assms unfolding splits_at_def by force+
    then show False by simp
  qed
qed

lemma linear_scan_none:
  "linear_scan h v = - 1 \<longleftrightarrow> (\<forall>e \<in> set h. \<not> snap_id e \<le> v)"
proof
  assume a: "linear_scan h v = - 1"
  show "\<forall>e \<in> set h. \<not> snap_id e \<le> v"
  proof
    fix e assume "e \<in> set h"
    then obtain i where i: "i < length h" "e = h ! nat (int i)"
      by (auto simp: in_set_conv_nth)
    have "\<forall>i. linear_scan h v < i \<and> i < int (length h) \<longrightarrow> v < snap_id (h ! nat i)"
      using linear_scan_rightmost [of h v] by blast
    moreover have "linear_scan h v < int i \<and> int i < int (length h)"
      using a i by simp
    ultimately have "v < snap_id (h ! nat (int i))" by blast
    with i show "\<not> snap_id e \<le> v" by simp
  qed
next
  assume a: "\<forall>e \<in> set h. \<not> snap_id e \<le> v"
  show "linear_scan h v = - 1"
  proof (rule ccontr)
    assume "linear_scan h v \<noteq> - 1"
    then have r: "0 \<le> linear_scan h v" "linear_scan h v < int (length h)"
      and p: "snap_id (h ! nat (linear_scan h v)) \<le> v"
      using linear_scan_rightmost [of h v] by simp_all
    from r have "h ! nat (linear_scan h v) \<in> set h" by simp
    with a p show False by blast
  qed
qed

lemma gfs_invalid:
  "sid < 0 \<or> next_snap_id s \<le> sid \<Longrightarrow>
   get_from_snapshot s k sid = Inl (IndexError InvalidSnapId)"
  by (auto simp: get_from_snapshot_def)

lemma gfs_no_timeline:
  "0 \<le> sid \<Longrightarrow> sid < next_snap_id s \<Longrightarrow> timeline s k = [] \<Longrightarrow>
   get_from_snapshot s k sid = Inl (KeyError NeverExisted)"
  by (auto simp: get_from_snapshot_def timeline_def split: option.splits)

lemma gfs_loop:
  assumes "0 \<le> sid" "sid < next_snap_id s" "key_history_store s k = Some h" "h \<noteq> []"
    and "get_from_snapshot_loop h sid 0 (int (length h) - 1) (- 1) = Inr j"
    and "- 1 \<le> j" "j < int (length h)"
  shows "get_from_snapshot s k sid =
           (if j = - 1 then Inr None
            else (case entry_value (h ! nat j) of
                    None \<Rightarrow> Inl (KeyError DeletedInSnapshot)
                  | Some x \<Rightarrow> Inr (Some x)))"
proof (cases "j = - 1")
  case True
  then show ?thesis using assms by (simp add: get_from_snapshot_def)
next
  case False
  then have "py_index h j = Inr (h ! nat j)"
    using assms(6,7) by (intro py_index_in_range) simp_all
  then show ?thesis using False assms(1-5) by (simp add: get_from_snapshot_def)
qed

lemma gfs_with_timeline:
  assumes "0 \<le> sid" "sid < next_snap_id s" "key_history_store s k = Some h" "h \<noteq> []"
  shows "get_from_snapshot s k sid = Inr None
         \<or> get_from_snapshot s k sid = Inl (KeyError DeletedInSnapshot)
         \<or> (\<exists>x. get_from_snapshot s k sid = Inr (Some x))"
proof -
  obtain j where j: "get_from_snapshot_loop h sid 0 (int (length h) - 1) (- 1) = Inr j"
      "- 1 \<le> j" "j < int (length h)"
    using loop_returns [of 0 "int (length h) - 1" h "- 1" sid] by auto
  show ?thesis
    unfolding gfs_loop [OF assms j] by (simp split: option.splits)
qed

lemma gfs_sorted:
  assumes "0 \<le> sid" "sid < next_snap_id s" "key_history_store s k = Some h" "h \<noteq> []"
    and "sorted (map snap_id h)"
  shows "get_from_snapshot s k sid = outcome (resolve h sid)"
proof -
  obtain j where j: "get_from_snapshot_loop h sid 0 (int (length h) - 1) (- 1) = Inr j"
    and sp: "splits_at h sid j"
    using loop_sorted [OF assms(5)] by blast
  have r: "- 1 \<le> j" "j < int (length h)" using sp by (simp_all add: splits_at_def)
  have f: "filter (\<lambda>e. snap_id e \<le> sid) h = take (nat (j + 1)) h"
    by (rule splits_at_filter [OF sp])
  show ?thesis
  proof (cases "j = - 1")
    case True
    then show ?thesis
      unfolding gfs_loop [OF assms(1-4) j r] using f by (simp add: resolve_def outcome_def)
  next
    case False
    then have n: "nat (j + 1) = Suc (nat j)" "nat j < length h" using r by linarith+
    then have "take (nat (j + 1)) h = take (nat j) h @ [h ! nat j]"
      by (simp add: take_Suc_conv_app_nth)
    then have "resolve h sid = Some (h ! nat j)"
      using f by (simp add: resolve_def)
    then show ?thesis
      unfolding gfs_loop [OF assms(1-4) j r] using False by (simp add: outcome_def)
  qed
qed

lemma timeline_Nil_run:
  "timeline (run init cs) k = [] \<longleftrightarrow> \<not> list_ex (is_put k) cs"
proof -
  have "invar (run init cs)"
    by (rule invar_run [OF invar_init])
  then have "timeline (run init cs) k = [] \<longleftrightarrow> key_history_store (run init cs) k = None"
    by (auto simp: timeline_def invar_def wf_history_def split: option.splits)
  then show ?thesis
    by (simp add: key_history_store_run init_def)
qed

lemma get_timeline:
  "get s k =
     (if timeline s k = [] then Inl (KeyError NotInCurrentState)
      else (case entry_value (last (timeline s k)) of
              None \<Rightarrow> Inl (KeyError MaybeDeleted)
            | Some x \<Rightarrow> Inr x))"
  by (simp add: get_def timeline_def split: option.splits)

lemma put_history_above:
  "v < n \<Longrightarrow> \<forall>e \<in> set h. v < snap_id e \<Longrightarrow> \<forall>e \<in> set (put_history h n w). v < snap_id e"
  by (auto simp: put_history_def dest: in_set_butlastD)

lemma put_history_append:
  "ext \<noteq> [] \<Longrightarrow> put_history (base @ ext) n w = base @ put_history ext n w"
  by (simp add: put_history_def butlast_append)

lemma put_history_base:
  assumes "\<forall>e \<in> set base. snap_id e \<le> v" "v < n"
  shows "put_history base n w = base @ [\<lparr>snap_id = n, entry_value = w\<rparr>]"
proof (cases "base = []")
  case True
  then show ?thesis by (simp add: put_history_def)
next
  case False
  then have "snap_id (last base) \<le> v" using assms(1) by simp
  then show ?thesis using assms(2) by (simp add: put_history_def)
qed

lemma put_history_extends:
  assumes "\<forall>e \<in> set base. snap_id e \<le> v" "v < n" "\<forall>e \<in> set ext. v < snap_id e"
  shows "\<exists>ext'. put_history (base @ ext) n w = base @ ext' \<and> (\<forall>e \<in> set ext'. v < snap_id e)"
proof (cases "ext = []")
  case True
  then show ?thesis using put_history_base [OF assms(1,2), of w] assms(2) by simp
next
  case False
  then show ?thesis
    using put_history_above [OF assms(2,3), of w] by (simp add: put_history_append)
qed

lemma extends_after_put:
  assumes "\<forall>e \<in> set base. snap_id e \<le> v" "extends_after v base s k"
  shows "extends_after v base (put s k' w) k"
proof (cases "k' = k")
  case True
  from assms(2) obtain ext where "v < next_snap_id s" "timeline s k = base @ ext"
      "\<forall>e \<in> set ext. v < snap_id e"
    by (auto simp: extends_after_def)
  then show ?thesis
    using put_history_extends [OF assms(1), of "next_snap_id s" ext w] True
    by (simp add: extends_after_def timeline_put)
next
  case False
  then show ?thesis using assms(2) by (simp add: extends_after_def timeline_put)
qed

lemma extends_after_step:
  assumes "\<forall>e \<in> set base. snap_id e \<le> v" "extends_after v base s k"
  shows "extends_after v base (step s c) k"
proof (cases c)
  case (Put k' w)
  then show ?thesis using extends_after_put [OF assms] by simp
next
  case (Delete k')
  then show ?thesis using extends_after_put [OF assms] assms(2) by (simp add: delete_def)
next
  case TakeSnapshot
  then show ?thesis using assms(2) by (auto simp: extends_after_def)
qed (use assms(2) in simp_all)

lemma extends_after_run:
  "\<forall>e \<in> set base. snap_id e \<le> v \<Longrightarrow> extends_after v base s k \<Longrightarrow>
   extends_after v base (run s cs) k"
  by (induction cs arbitrary: s) (simp_all add: extends_after_step)

lemma outcome_get:
  "base \<noteq> [] \<Longrightarrow> timeline s k = base \<Longrightarrow>
   outcome (Some (last base)) = snapshot_outcome (get s k) b"
  by (simp add: get_timeline outcome_def snapshot_outcome_def split: option.splits)

lemma round_trip:
  assumes "invar s0"
  shows "get_from_snapshot (run (snd (take_snapshot s0)) post) k (fst (take_snapshot s0)) =
         snapshot_outcome (get (snd (take_snapshot s0)) k)
           (key_history_store (run (snd (take_snapshot s0)) post) k \<noteq> None)"
proof -
  let ?v = "next_snap_id s0" and ?s1 = "snd (take_snapshot s0)"
  let ?s2 = "run ?s1 post" and ?base = "timeline s0 k"
  have v: "fst (take_snapshot s0) = ?v" by (simp add: take_snapshot_def)
  have base: "\<forall>e \<in> set ?base. snap_id e \<le> ?v"
    using invar_timeline [OF assms, of k] by (auto simp: wf_history_def)
  have "extends_after ?v ?base ?s1 k"
    by (simp add: extends_after_def)
  then have "extends_after ?v ?base ?s2 k"
    by (rule extends_after_run [OF base])
  then obtain ext where valid: "?v < next_snap_id ?s2"
      and tl: "timeline ?s2 k = ?base @ ext" and ext: "\<forall>e \<in> set ext. ?v < snap_id e"
    by (auto simp: extends_after_def)
  have nonneg: "0 \<le> ?v" using assms by (simp add: invar_def)
  have inv2: "invar ?s2"
    by (intro invar_run invar_take_snapshot assms)
  have f: "filter (\<lambda>e. snap_id e \<le> ?v) (?base @ ext) = ?base"
    using base ext by (auto simp: filter_empty_conv)
  show ?thesis
  proof (cases "key_history_store ?s2 k")
    case None
    then have "timeline ?s2 k = []" by (simp add: timeline_def)
    then have "get_from_snapshot ?s2 k ?v = Inl (KeyError NeverExisted)" "?base = []"
      using nonneg valid tl by (simp_all add: gfs_no_timeline)
    then show ?thesis
      using None v by (simp add: get_timeline snapshot_outcome_def)
  next
    case (Some h)
    then have "wf_history (next_snap_id ?s2) h"
      using inv2 by (simp add: invar_def)
    then have "h \<noteq> []" "sorted_wrt (<) (map snap_id h)"
      by (simp_all add: wf_history_def)
    moreover have "timeline ?s2 k = h"
      using Some by (simp add: timeline_def)
    ultimately have h: "h \<noteq> []" "sorted (map snap_id h)" "h = ?base @ ext"
      using tl by (simp_all add: strict_sorted_imp_sorted)
    have "get_from_snapshot ?s2 k ?v = outcome (resolve h ?v)"
      using nonneg valid Some h(1,2) by (rule gfs_sorted)
    also have "resolve h ?v = (if ?base = [] then None else Some (last ?base))"
      using f h(3) by (simp add: resolve_def)
    also have "outcome (if ?base = [] then None else Some (last ?base)) =
               snapshot_outcome (get ?s1 k) (key_history_store ?s2 k \<noteq> None)"
    proof (cases "?base = []")
      case True
      then show ?thesis using Some by (simp add: outcome_def get_timeline snapshot_outcome_def)
    next
      case False
      then show ?thesis using outcome_get [of ?base ?s1 k] by simp
    qed
    finally show ?thesis using v by simp
  qed
qed

lemma snapshot_split:
  "0 \<le> sid \<Longrightarrow> sid < int (count_list cs TakeSnapshot) \<Longrightarrow>
   \<exists>pre post. cs = pre @ TakeSnapshot # post \<and> int (count_list pre TakeSnapshot) = sid"
proof (induction cs rule: rev_induct)
  case Nil
  then show ?case by simp
next
  case (snoc c cs)
  show ?case
  proof (cases "sid < int (count_list cs TakeSnapshot)")
    case True
    with snoc obtain pre post where "cs = pre @ TakeSnapshot # post"
        "int (count_list pre TakeSnapshot) = sid" by blast
    then have "cs @ [c] = pre @ TakeSnapshot # (post @ [c])
        \<and> int (count_list pre TakeSnapshot) = sid" by simp
    then show ?thesis by blast
  next
    case False
    with snoc.prems have "c = TakeSnapshot \<and> int (count_list cs TakeSnapshot) = sid"
      by (auto split: if_splits)
    then have "cs @ [c] = cs @ TakeSnapshot # [] \<and> int (count_list cs TakeSnapshot) = sid"
      by simp
    then show ?thesis by blast
  qed
qed

lemmas ops_defs = init_def put_def delete_def take_snapshot_def

lemma last_put_history [simp]: "entry_value (last (put_history h n v)) = v"
  by (simp add: put_history_def)

lemma list_ex_is_put_writes:
  "list_ex (is_put k) cs \<Longrightarrow> filter (is_write k) cs \<noteq> []"
proof (induction cs)
  case Nil
  then show ?case by simp
next
  case (Cons c cs)
  then show ?case by (cases c) auto
qed

lemma last_write_run:
  "list_ex (is_put k) cs \<Longrightarrow>
   entry_value (last (timeline (run init cs) k)) = written_value (last (filter (is_write k) cs))"
proof (induction cs rule: rev_induct)
  case Nil
  then show ?case by simp
next
  case (snoc c cs)
  show ?case
  proof (cases "is_write k c")
    case True
    then consider v where "c = Put k v" | "c = Delete k"
      by (cases c) auto
    then show ?thesis
    proof cases
      case 1
      then show ?thesis by (simp add: timeline_put)
    next
      case 2
      with snoc.prems have "list_ex (is_put k) cs" by simp
      then have "key_history_store (run init cs) k \<noteq> None"
        by (simp add: key_history_store_run)
      with 2 show ?thesis by (simp add: timeline_delete)
    qed
  next
    case False
    then have same: "timeline (step (run init cs) c) k = timeline (run init cs) k"
      by (cases c) (auto simp: timeline_put timeline_delete)
    from False have "\<not> is_put k c" by (cases c) auto
    with snoc.prems have "list_ex (is_put k) cs" by simp
    with snoc.IH same False show ?thesis by simp
  qed
qed

lemma key_history_store_step_other:
  "\<not> is_write k c \<Longrightarrow> key_history_store (step s c) k = key_history_store s k"
  by (cases c) (auto simp: put_eq delete_def)

lemma key_history_store_run_other:
  "\<not> list_ex (is_write k) cs \<Longrightarrow> key_history_store (run s cs) k = key_history_store s k"
  by (induction cs arbitrary: s) (simp_all add: key_history_store_step_other)

lemma put_None_unwritten:
  "key_history_store s k = None \<Longrightarrow>
   key_history_store (put s k v) k = Some [\<lparr>snap_id = next_snap_id s, entry_value = v\<rparr>]"
  by (simp add: put_def)

section \<open>Claims\<close>

subsection \<open>C5: versions are issued in order\<close>

text \<open>
  C5. \<^verbatim>\<open>take_snapshot\<close> returns the counter's previous value and increments the counter by
  exactly 1; \<^verbatim>\<open>put\<close>, \<^verbatim>\<open>delete\<close>, \<^verbatim>\<open>get\<close> and \<^verbatim>\<open>get_from_snapshot\<close> leave the counter
  as it is; so the \<^verbatim>\<open>take_snapshot\<close> calls of any sequence of calls return the consecutive
  integers from the counter's starting value on, which is \<open>0, 1, 2, \<dots>\<close> for a new map,
  whatever calls are interleaved.
\<close>

theorem take_snapshot_versions:
  "fst (take_snapshot s) = next_snap_id s
   \<and> next_snap_id (snd (take_snapshot s)) = next_snap_id s + 1
   \<and> next_snap_id (step s (Put k v)) = next_snap_id s
   \<and> next_snap_id (step s (Delete k)) = next_snap_id s
   \<and> next_snap_id (step s (Get k)) = next_snap_id s
   \<and> next_snap_id (step s (GetFromSnapshot k sid)) = next_snap_id s
   \<and> returned_ids s cs = [next_snap_id s .. next_snap_id s + int (count_list cs TakeSnapshot) - 1]
   \<and> returned_ids init cs = [0 .. int (count_list cs TakeSnapshot) - 1]
   \<and> next_snap_id (run init cs) = int (count_list cs TakeSnapshot)"
  by (simp add: returned_ids_from next_snap_id_run) (simp add: take_snapshot_def init_def)

subsection \<open>C6: timelines are strictly increasing\<close>

text \<open>
  C6. In every state reached from the new map by any sequence of \<^verbatim>\<open>put\<close>, \<^verbatim>\<open>delete\<close>,
  \<^verbatim>\<open>get\<close>, \<^verbatim>\<open>take_snapshot\<close> and \<^verbatim>\<open>get_from_snapshot\<close> calls, the versions of every
  key's history are strictly increasing, so no two entries share a version. The reason is
  how \<^verbatim>\<open>put\<close> writes: it overwrites the value of the last entry when that entry bears the
  pending version, and appends an entry tagged with the pending version otherwise.
\<close>

theorem timelines_strictly_increasing:
  "(key_history_store (run init cs) k = Some h \<longrightarrow>
      sorted_wrt (<) (map snap_id h) \<and> distinct (map snap_id h))
   \<and> key_history_store (put s k v) k =
       Some (if timeline s k \<noteq> [] \<and> snap_id (last (timeline s k)) = next_snap_id s
             then butlast (timeline s k) @ [(last (timeline s k))\<lparr>entry_value := v\<rparr>]
             else timeline s k @ [\<lparr>snap_id = next_snap_id s, entry_value = v\<rparr>])"
proof -
  have "sorted_wrt (<) (map snap_id h) \<and> distinct (map snap_id h)"
    if h: "key_history_store (run init cs) k = Some h"
  proof -
    have "invar (run init cs)"
      by (rule invar_run [OF invar_init])
    with h have "sorted_wrt (<) (map snap_id h)"
      by (simp add: invar_def wf_history_def)
    then show ?thesis
      by (simp add: strict_sorted_iff)
  qed
  moreover have "key_history_store (put s k v) k =
       Some (if timeline s k \<noteq> [] \<and> snap_id (last (timeline s k)) = next_snap_id s
             then butlast (timeline s k) @ [(last (timeline s k))\<lparr>entry_value := v\<rparr>]
             else timeline s k @ [\<lparr>snap_id = next_snap_id s, entry_value = v\<rparr>])"
    by (simp add: put_eq put_history_def)
  ultimately show ?thesis by blast
qed

theorem timelines_strictly_increasing_witness:
  "key_history_store
     (run init [Put ''a'' (Some 1), Put ''a'' (Some 2), TakeSnapshot, Delete ''a'']) ''a''
     = Some [\<lparr>snap_id = 0, entry_value = Some 2\<rparr>, \<lparr>snap_id = 1, entry_value = None\<rparr>]
   \<and> sorted_wrt (<) (map snap_id [\<lparr>snap_id = 0, entry_value = Some 2\<rparr>,
                                    \<lparr>snap_id = 1, entry_value = None\<rparr>])"
proof -
  have h: "key_history_store
     (run init [Put ''a'' (Some 1), Put ''a'' (Some 2), TakeSnapshot, Delete ''a'']) ''a''
     = Some [\<lparr>snap_id = 0, entry_value = Some 2\<rparr>, \<lparr>snap_id = 1, entry_value = None\<rparr>]"
    by (simp add: init_def put_def delete_def take_snapshot_def)
  from timelines_strictly_increasing
         [of "[Put ''a'' (Some 1), Put ''a'' (Some 2), TakeSnapshot, Delete ''a'']" "''a''"
             "[\<lparr>snap_id = 0, entry_value = Some 2\<rparr>, \<lparr>snap_id = 1, entry_value = None\<rparr>]"] h
  show ?thesis by blast
qed

subsection \<open>C7: writes between two snapshots coalesce\<close>

text \<open>
  C7. From any state and for any key \<open>k\<close>, several \<^verbatim>\<open>put(k, _)\<close> calls in a row, with no
  \<^verbatim>\<open>take_snapshot\<close> between them, leave the map in exactly the state that the single call
  \<^verbatim>\<open>put(k, last value)\<close> produces: the same history for every key (same length, same
  entries) and the same counter. So whatever calls follow, no \<^verbatim>\<open>get\<close> and no
  \<^verbatim>\<open>get_from_snapshot\<close> tells the two apart.
\<close>

theorem put_coalescing:
  "vs \<noteq> [] \<longrightarrow>
     run s (map (Put k) vs) = put s k (last vs)
     \<and> length (timeline (run s (map (Put k) vs)) k') = length (timeline (put s k (last vs)) k')
     \<and> get (run (run s (map (Put k) vs)) cs) k' = get (run (put s k (last vs)) cs) k'
     \<and> get_from_snapshot (run (run s (map (Put k) vs)) cs) k' sid =
         get_from_snapshot (run (put s k (last vs)) cs) k' sid"
  by (simp add: run_puts)

theorem put_coalescing_witness:
  "[Some 1, None, Some 3] \<noteq> []
   \<and> run init (map (Put ''a'') [Some 1, None, Some 3]) = put init ''a'' (Some 3)
   \<and> key_history_store (put init ''a'' (Some 3)) ''a'' =
       Some [\<lparr>snap_id = 0, entry_value = Some 3\<rparr>]"
proof -
  have ne: "[Some 1, None, Some (3::int)] \<noteq> []" by simp
  have "key_history_store (put init ''a'' (Some 3)) ''a'' =
       Some [\<lparr>snap_id = 0, entry_value = Some 3\<rparr>]"
    by (simp add: put_def init_def)
  with put_coalescing [of "[Some 1, None, Some 3]" init "''a''"] ne
  show ?thesis by simp
qed

subsection \<open>C9: deleting a key that was never written\<close>

text \<open>
  C9. \<^verbatim>\<open>delete(k)\<close> on a key that is not in the dictionary, which in a state reached from
  the new map is a key that no \<^verbatim>\<open>put\<close> has written, returns normally and leaves the whole
  state as it was: every key's history and the counter. On a key that is in the dictionary
  it is \<^verbatim>\<open>put(k, None)\<close>.
\<close>

theorem delete_unwritten_key:
  "(key_history_store s k = None \<longrightarrow> delete s k = s)
   \<and> (key_history_store s k \<noteq> None \<longrightarrow> delete s k = put s k None)
   \<and> (\<not> list_ex (is_put k) cs \<longrightarrow> delete (run init cs) k = run init cs)"
  by (simp add: delete_def key_history_store_run init_def)

theorem delete_unwritten_key_witness:
  "key_history_store init ''a'' = None \<and> delete init ''a'' = init
   \<and> key_history_store (put init ''a'' (Some 1)) ''a'' \<noteq> None
   \<and> delete (put init ''a'' (Some 1)) ''a'' = put (put init ''a'' (Some 1)) ''a'' None
   \<and> \<not> list_ex (is_put ''a'') [Put ''b'' (Some 1), Delete ''a'']
   \<and> delete (run init [Put ''b'' (Some 1), Delete ''a'']) ''a''
       = run init [Put ''b'' (Some 1), Delete ''a'']"
proof -
  have a: "key_history_store init ''a'' = None"
    by (simp add: init_def)
  have b: "key_history_store (put init ''a'' (Some 1)) ''a'' \<noteq> None"
    by (simp add: put_def init_def)
  have c: "\<not> list_ex (is_put ''a'') [Put ''b'' (Some 1), Delete ''a'']"
    by simp
  from delete_unwritten_key [of init "''a''" "[Put ''b'' (Some 1), Delete ''a'']"]
       delete_unwritten_key [of "put init ''a'' (Some 1)" "''a''" "[]"] a b c
  show ?thesis by blast
qed

subsection \<open>C1: a snapshot answers as the map did when it was taken\<close>

text \<open>
  C1. Take any sequence of calls on a new map and any \<^verbatim>\<open>take_snapshot\<close> call in it, and let
  \<open>v\<close> be the version that call returned. After the whole sequence, \<^verbatim>\<open>get_from_snapshot(k, v)\<close>
  gives what \<^verbatim>\<open>get(k)\<close> gave right after that \<^verbatim>\<open>take_snapshot\<close> call: the same integer when
  \<^verbatim>\<open>get\<close> returned one; the deleted-at-snapshot error when \<^verbatim>\<open>get\<close> failed on a tombstone;
  and, when \<^verbatim>\<open>get\<close> failed because the key had no history, the never-existed error if the
  key still has no history and the absent result \<^verbatim>\<open>None\<close> if it was written later. Every
  valid version \<open>0 \<le> v < N\<close> is the version returned by a \<^verbatim>\<open>take_snapshot\<close> call of the
  sequence.
\<close>

theorem historical_round_trip:
  "get_from_snapshot (run init (pre @ TakeSnapshot # post)) k (fst (take_snapshot (run init pre)))
     = snapshot_outcome (get (snd (take_snapshot (run init pre))) k)
         (key_history_store (run init (pre @ TakeSnapshot # post)) k \<noteq> None)
   \<and> (0 \<le> sid \<and> sid < next_snap_id (run init cs) \<longrightarrow>
        (\<exists>pre post. cs = pre @ TakeSnapshot # post \<and> fst (take_snapshot (run init pre)) = sid))"
proof -
  have "invar (run init pre)"
    by (rule invar_run [OF invar_init])
  from round_trip [OF this, of post k]
  have a: "get_from_snapshot (run init (pre @ TakeSnapshot # post)) k (fst (take_snapshot (run init pre)))
     = snapshot_outcome (get (snd (take_snapshot (run init pre))) k)
         (key_history_store (run init (pre @ TakeSnapshot # post)) k \<noteq> None)"
    by simp
  have b: "\<exists>pre post. cs = pre @ TakeSnapshot # post \<and> fst (take_snapshot (run init pre)) = sid"
    if "0 \<le> sid" "sid < next_snap_id (run init cs)"
  proof -
    from that have "sid < int (count_list cs TakeSnapshot)"
      by (simp add: next_snap_id_run init_def)
    from snapshot_split [OF that(1) this] show ?thesis
      by (simp add: take_snapshot_def next_snap_id_run init_def)
  qed
  from a b show ?thesis by blast
qed

theorem historical_round_trip_witness:
  "(0::int) \<le> 0 \<and> 0 < next_snap_id (run init [Put ''a'' (Some 1), TakeSnapshot, Put ''a'' (Some 2)])
   \<and> (\<exists>pre post. [Put ''a'' (Some 1), TakeSnapshot, Put ''a'' (Some 2)] = pre @ TakeSnapshot # post
         \<and> fst (take_snapshot (run init pre)) = 0)
   \<and> get (snd (take_snapshot (run init [Put ''a'' (Some 1)]))) ''a'' = Inr 1
   \<and> get_from_snapshot (run init ([Put ''a'' (Some 1)] @ TakeSnapshot # [Put ''a'' (Some 2)])) ''a''
        (fst (take_snapshot (run init [Put ''a'' (Some 1)]))) = Inr (Some 1)"
proof -
  let ?cs = "[Put ''a'' (Some 1), TakeSnapshot, Put ''a'' (Some 2)]"
  have a: "0 < next_snap_id (run init ?cs)" by (simp add: ops_defs)
  have g: "get (snd (take_snapshot (run init [Put ''a'' (Some 1)]))) ''a'' = Inr 1"
    by (simp add: ops_defs get_def)
  from historical_round_trip [of "[Put ''a'' (Some 1)]" "[Put ''a'' (Some 2)]" "''a''" 0 ?cs] a g
  show ?thesis by (simp add: snapshot_outcome_def)
qed

subsection \<open>C2: how a historical read is resolved\<close>

text \<open>
  C2. In a state reached from a new map, for a key with a non-empty history and a valid
  version \<open>0 \<le> v < N\<close>, \<^verbatim>\<open>get_from_snapshot(k, v)\<close> resolves to the last entry of the history
  whose version is \<open>\<le> v\<close>: with no such entry it returns \<^verbatim>\<open>None\<close> and raises nothing, with a
  tombstone there it raises the deleted-at-snapshot error, and otherwise it returns that
  entry's value.
\<close>

theorem get_from_snapshot_resolution:
  "key_history_store (run init cs) k = Some h \<and> h \<noteq> []
   \<and> 0 \<le> sid \<and> sid < next_snap_id (run init cs) \<longrightarrow>
     get_from_snapshot (run init cs) k sid =
       (case resolve h sid of
          None \<Rightarrow> Inr None
        | Some e \<Rightarrow>
            (case entry_value e of
               None \<Rightarrow> Inl (KeyError DeletedInSnapshot)
             | Some x \<Rightarrow> Inr (Some x)))"
proof
  assume a: "key_history_store (run init cs) k = Some h \<and> h \<noteq> []
   \<and> 0 \<le> sid \<and> sid < next_snap_id (run init cs)"
  have "invar (run init cs)"
    by (rule invar_run [OF invar_init])
  with a have "sorted_wrt (<) (map snap_id h)"
    by (auto simp: invar_def wf_history_def)
  then have "sorted (map snap_id h)"
    by (rule strict_sorted_imp_sorted)
  with a have "get_from_snapshot (run init cs) k sid = outcome (resolve h sid)"
    by (intro gfs_sorted) simp_all
  then show "get_from_snapshot (run init cs) k sid =
       (case resolve h sid of
          None \<Rightarrow> Inr None
        | Some e \<Rightarrow>
            (case entry_value e of
               None \<Rightarrow> Inl (KeyError DeletedInSnapshot)
             | Some x \<Rightarrow> Inr (Some x)))"
    by (simp add: outcome_def)
qed

theorem get_from_snapshot_resolution_witness:
  "key_history_store (run init [Put ''a'' (Some 1), TakeSnapshot, Delete ''a'', TakeSnapshot]) ''a''
     = Some [\<lparr>snap_id = 0, entry_value = Some 1\<rparr>, \<lparr>snap_id = 1, entry_value = None\<rparr>]
   \<and> [\<lparr>snap_id = 0, entry_value = Some 1\<rparr>, \<lparr>snap_id = 1, entry_value = None\<rparr>] \<noteq> []
   \<and> (0::int) \<le> 1
   \<and> 1 < next_snap_id (run init [Put ''a'' (Some 1), TakeSnapshot, Delete ''a'', TakeSnapshot])
   \<and> get_from_snapshot (run init [Put ''a'' (Some 1), TakeSnapshot, Delete ''a'', TakeSnapshot])
         ''a'' 1 = Inl (KeyError DeletedInSnapshot)"
proof -
  let ?cs = "[Put ''a'' (Some 1), TakeSnapshot, Delete ''a'', TakeSnapshot]"
  let ?h = "[\<lparr>snap_id = 0, entry_value = Some 1\<rparr>, \<lparr>snap_id = 1, entry_value = None\<rparr>]"
  have a: "key_history_store (run init ?cs) ''a'' = Some ?h"
    by (simp add: ops_defs)
  have b: "1 < next_snap_id (run init ?cs)"
    by (simp add: ops_defs)
  have c: "resolve ?h 1 = Some \<lparr>snap_id = 1, entry_value = None\<rparr>"
    by (simp add: resolve_def)
  from get_from_snapshot_resolution [of ?cs "''a''" ?h 1] a b c show ?thesis by simp
qed

subsection \<open>C3: the errors of a historical read and their order\<close>

text \<open>
  C3. \<^verbatim>\<open>get_from_snapshot(k, v)\<close> raises \<^verbatim>\<open>IndexError\<close> exactly when \<open>v < 0\<close> or \<open>v \<ge> N\<close> (so
  always when \<open>N = 0\<close>), whatever the key and the dictionary hold: the range is checked
  before the key is looked up. For a valid \<open>v\<close> it raises the never-existed \<^verbatim>\<open>KeyError\<close>
  exactly when the key has no history, which in a state reached from a new map is a key
  that no \<^verbatim>\<open>put\<close> has written.
\<close>

theorem get_from_snapshot_errors:
  "((\<exists>m. get_from_snapshot s k sid = Inl (IndexError m)) \<longleftrightarrow> sid < 0 \<or> next_snap_id s \<le> sid)
   \<and> (sid < 0 \<or> next_snap_id s \<le> sid \<longrightarrow>
        get_from_snapshot s k sid = Inl (IndexError InvalidSnapId))
   \<and> (0 \<le> sid \<and> sid < next_snap_id s \<longrightarrow>
        (get_from_snapshot s k sid = Inl (KeyError NeverExisted) \<longleftrightarrow> timeline s k = []))
   \<and> (0 \<le> sid \<and> sid < next_snap_id (run init cs) \<longrightarrow>
        (get_from_snapshot (run init cs) k sid = Inl (KeyError NeverExisted)
           \<longleftrightarrow> \<not> list_ex (is_put k) cs))"
proof -
  have valid: "get_from_snapshot s k sid = Inl (KeyError NeverExisted) \<longleftrightarrow> timeline s k = []"
    and no_index: "\<not> (\<exists>m. get_from_snapshot s k sid = Inl (IndexError m))"
    if v: "0 \<le> sid" "sid < next_snap_id s" for s
  proof -
    show "get_from_snapshot s k sid = Inl (KeyError NeverExisted) \<longleftrightarrow> timeline s k = []"
    proof (cases "timeline s k = []")
      case True
      then show ?thesis using v by (simp add: gfs_no_timeline)
    next
      case False
      then obtain h where "key_history_store s k = Some h" "h \<noteq> []"
        by (auto simp: timeline_def split: option.splits)
      from gfs_with_timeline [OF v this] False show ?thesis by auto
    qed
    show "\<not> (\<exists>m. get_from_snapshot s k sid = Inl (IndexError m))"
    proof (cases "timeline s k = []")
      case True
      then show ?thesis using v by (simp add: gfs_no_timeline)
    next
      case False
      then obtain h where "key_history_store s k = Some h" "h \<noteq> []"
        by (auto simp: timeline_def split: option.splits)
      from gfs_with_timeline [OF v this] show ?thesis by auto
    qed
  qed
  have "(\<exists>m. get_from_snapshot s k sid = Inl (IndexError m)) \<longleftrightarrow> sid < 0 \<or> next_snap_id s \<le> sid"
  proof (cases "sid < 0 \<or> next_snap_id s \<le> sid")
    case True
    then show ?thesis by (simp add: gfs_invalid)
  next
    case False
    then show ?thesis using no_index [of s] by simp
  qed
  then show ?thesis
    using valid [of s] valid [of "run init cs"] by (simp add: gfs_invalid timeline_Nil_run)
qed

theorem get_from_snapshot_errors_witness:
  "next_snap_id init \<le> 0
   \<and> get_from_snapshot init ''a'' 0 = Inl (IndexError InvalidSnapId)
   \<and> (0::int) \<le> 0 \<and> 0 < next_snap_id (run init [Put ''b'' (Some 1), TakeSnapshot])
   \<and> \<not> list_ex (is_put ''a'') [Put ''b'' (Some 1), TakeSnapshot]
   \<and> timeline (run init [Put ''b'' (Some 1), TakeSnapshot]) ''a'' = []
   \<and> get_from_snapshot (run init [Put ''b'' (Some 1), TakeSnapshot]) ''a'' 0
        = Inl (KeyError NeverExisted)"
proof -
  let ?cs = "[Put ''b'' (Some 1), TakeSnapshot]"
  have a: "next_snap_id init \<le> 0" by (simp add: init_def)
  have b: "0 < next_snap_id (run init ?cs)" by (simp add: ops_defs)
  have c: "\<not> list_ex (is_put ''a'') ?cs" by simp
  have d: "timeline (run init ?cs) ''a'' = []" by (simp add: ops_defs timeline_def)
  from get_from_snapshot_errors [of init "''a''" 0 "[]"]
       get_from_snapshot_errors [of "run init ?cs" "''a''" 0 ?cs] a b c d
  show ?thesis by simp
qed

subsection \<open>C8: the binary search agrees with a linear scan\<close>

text \<open>
  C8. On every history whose versions are strictly increasing and for every queried
  version, the two-pointer loop of \<^verbatim>\<open>get_from_snapshot\<close>, started as the method starts it,
  returns the index that a linear scan for the rightmost entry of version \<open>\<le> v\<close> finds, and
  that index is \<open>-1\<close> exactly when no entry has a version \<open>\<le> v\<close>.
\<close>

theorem binary_search_is_linear_scan:
  "sorted_wrt (<) (map snap_id history) \<longrightarrow>
     get_from_snapshot_loop history sid 0 (int (length history) - 1) (- 1)
       = Inr (linear_scan history sid)
     \<and> (linear_scan history sid = - 1 \<longleftrightarrow> (\<forall>e \<in> set history. \<not> snap_id e \<le> sid))"
proof
  assume "sorted_wrt (<) (map snap_id history)"
  then have "sorted (map snap_id history)"
    by (rule strict_sorted_imp_sorted)
  then obtain j where
    "get_from_snapshot_loop history sid 0 (int (length history) - 1) (- 1) = Inr j"
    "splits_at history sid j"
    using loop_sorted by blast
  then show "get_from_snapshot_loop history sid 0 (int (length history) - 1) (- 1)
       = Inr (linear_scan history sid)
     \<and> (linear_scan history sid = - 1 \<longleftrightarrow> (\<forall>e \<in> set history. \<not> snap_id e \<le> sid))"
    using linear_scan_splits [of history sid j] linear_scan_none [of history sid] by simp
qed

theorem binary_search_is_linear_scan_witness:
  "sorted_wrt (<) (map snap_id [\<lparr>snap_id = 0, entry_value = Some 1\<rparr>,
       \<lparr>snap_id = 2, entry_value = None\<rparr>, \<lparr>snap_id = 5, entry_value = Some 7\<rparr>])
   \<and> get_from_snapshot_loop [\<lparr>snap_id = 0, entry_value = Some 1\<rparr>,
       \<lparr>snap_id = 2, entry_value = None\<rparr>, \<lparr>snap_id = 5, entry_value = Some 7\<rparr>] 3 0 2 (- 1)
       = Inr 1
   \<and> linear_scan [\<lparr>snap_id = 0, entry_value = Some 1\<rparr>,
       \<lparr>snap_id = 2, entry_value = None\<rparr>, \<lparr>snap_id = 5, entry_value = Some 7\<rparr>] 3 = 1"
proof -
  let ?h = "[\<lparr>snap_id = 0, entry_value = Some 1\<rparr>,
       \<lparr>snap_id = 2, entry_value = None\<rparr>, \<lparr>snap_id = 5, entry_value = Some 7\<rparr>]"
  have s: "sorted_wrt (<) (map snap_id ?h)" by simp
  have l: "linear_scan ?h 3 = 1" by (simp add: linear_scan_def upt_rec)
  from binary_search_is_linear_scan [of ?h 3] s l show ?thesis by simp
qed

subsection \<open>C4: the current value\<close>

text \<open>
  C4, as the code has it. After any sequence of calls on a new map, \<^verbatim>\<open>get(k)\<close> returns the
  value of the last entry of the key's history, and that value is the one written by the most
  recent write to \<open>k\<close> (a \<^verbatim>\<open>put\<close> of \<open>k\<close>, or a \<^verbatim>\<open>delete\<close> of \<open>k\<close>, which writes the
  tombstone). It raises \<^verbatim>\<open>KeyError\<close> exactly when the key has no history, which is when no
  \<^verbatim>\<open>put\<close> ever wrote it, or when the last entry is a tombstone, which is when the most recent
  write to \<open>k\<close> was a \<^verbatim>\<open>delete\<close> or a \<^verbatim>\<open>put(k, None)\<close>.
\<close>

theorem get_current_value:
  "get (run init cs) k =
     (if timeline (run init cs) k = [] then Inl (KeyError NotInCurrentState)
      else (case entry_value (last (timeline (run init cs) k)) of
              None \<Rightarrow> Inl (KeyError MaybeDeleted)
            | Some x \<Rightarrow> Inr x))
   \<and> (timeline (run init cs) k = [] \<longleftrightarrow> \<not> list_ex (is_put k) cs)
   \<and> (list_ex (is_put k) cs \<longrightarrow>
        entry_value (last (timeline (run init cs) k)) =
          written_value (last (filter (is_write k) cs)))
   \<and> ((\<exists>e. get (run init cs) k = Inl e) \<longleftrightarrow>
        \<not> list_ex (is_put k) cs \<or> written_value (last (filter (is_write k) cs)) = None)
   \<and> ((\<exists>e. get (run init cs) k = Inl e) \<longleftrightarrow>
        \<not> list_ex (is_put k) cs
        \<or> last (filter (is_write k) cs) = Delete k
        \<or> last (filter (is_write k) cs) = Put k None)"
proof -
  let ?t = "timeline (run init cs) k" and ?w = "last (filter (is_write k) cs)"
  have a: "get (run init cs) k =
     (if ?t = [] then Inl (KeyError NotInCurrentState)
      else (case entry_value (last ?t) of
              None \<Rightarrow> Inl (KeyError MaybeDeleted)
            | Some x \<Rightarrow> Inr x))"
    by (rule get_timeline)
  have b: "?t = [] \<longleftrightarrow> \<not> list_ex (is_put k) cs"
    by (rule timeline_Nil_run)
  have c: "entry_value (last ?t) = written_value ?w" if "list_ex (is_put k) cs"
    using that by (rule last_write_run)
  have d: "(\<exists>e. get (run init cs) k = Inl e) \<longleftrightarrow>
        \<not> list_ex (is_put k) cs \<or> written_value ?w = None"
  proof (cases "list_ex (is_put k) cs")
    case True
    with b c show ?thesis by (simp add: a split: option.splits)
  next
    case False
    with b show ?thesis by (simp add: a)
  qed
  have e: "written_value ?w = None \<longleftrightarrow> ?w = Delete k \<or> ?w = Put k None"
    if "list_ex (is_put k) cs"
  proof -
    have "filter (is_write k) cs \<noteq> []"
      using that by (rule list_ex_is_put_writes)
    then have "?w \<in> set (filter (is_write k) cs)" by (rule last_in_set)
    then have "is_write k ?w" by simp
    then show ?thesis by (cases ?w) auto
  qed
  have f: "(\<exists>e. get (run init cs) k = Inl e) \<longleftrightarrow>
        \<not> list_ex (is_put k) cs \<or> ?w = Delete k \<or> ?w = Put k None"
    using d e by (cases "list_ex (is_put k) cs") simp_all
  show ?thesis
    by (intro conjI impI; (rule a b d f | erule c))
qed

theorem get_current_value_witness:
  "list_ex (is_put ''a'') [Put ''a'' (Some 1), TakeSnapshot, Delete ''a'', Put ''a'' (Some 5)]
   \<and> written_value (last (filter (is_write ''a'')
         [Put ''a'' (Some 1), TakeSnapshot, Delete ''a'', Put ''a'' (Some 5)])) = Some 5
   \<and> get (run init [Put ''a'' (Some 1), TakeSnapshot, Delete ''a'', Put ''a'' (Some 5)]) ''a''
        = Inr 5"
proof -
  let ?cs = "[Put ''a'' (Some 1), TakeSnapshot, Delete ''a'', Put ''a'' (Some 5)]"
  have a: "list_ex (is_put ''a'') ?cs" by simp
  have c: "written_value (last (filter (is_write ''a'') ?cs)) = Some 5" by simp
  from get_current_value [of ?cs "''a''"] a c show ?thesis
    by (simp split: if_splits option.splits)
qed

text \<open>
  The reading of C4 that a tombstone in the last entry means that the most recent operation
  was a \<^verbatim>\<open>delete\<close> fails where \<^verbatim>\<open>put\<close> is given \<^verbatim>\<open>None\<close>, which its signature allows: after
  the single call \<^verbatim>\<open>put("a", None)\<close> on a new map the key has been put, no \<^verbatim>\<open>delete\<close> was
  called, and \<^verbatim>\<open>get("a")\<close> raises \<^verbatim>\<open>KeyError\<close>.
\<close>

theorem get_current_value_counterexample:
  "get (run init [Put ''a'' None]) ''a'' = Inl (KeyError MaybeDeleted)
   \<and> list_ex (is_put ''a'') [Put ''a'' None]
   \<and> last (filter (is_write ''a'') [Put ''a'' None]) \<noteq> Delete ''a''"
  by (simp add: init_def put_def get_def)

subsection \<open>C10: \<^verbatim>\<open>put(k, None)\<close> on a key without history\<close>

text \<open>
  C10, as the code has it. \<^verbatim>\<open>put(k, None)\<close> on a key that is not in the dictionary creates a
  history of one tombstone entry, where \<^verbatim>\<open>delete(k)\<close> would have changed nothing. Afterwards
  \<^verbatim>\<open>get(k)\<close> raises the \<^verbatim>\<open>KeyError\<close> of a deleted key, and \<^verbatim>\<open>delete(k)\<close> is no longer
  skipped: it runs \<^verbatim>\<open>put(k, None)\<close>, which rewrites the pending tombstone in place (the state
  stays as it is) as long as no \<^verbatim>\<open>take_snapshot\<close> has come between, and appends a second
  tombstone entry once one has. As long as no later call writes \<open>k\<close>,
  \<^verbatim>\<open>get_from_snapshot(k, v)\<close> raises the deleted-at-snapshot error for every valid \<open>v\<close> at or
  after the entry's version.
\<close>

theorem put_None_on_unwritten_key:
  "key_history_store s k = None \<longrightarrow>
     key_history_store (put s k None) k = Some [\<lparr>snap_id = next_snap_id s, entry_value = None\<rparr>]
     \<and> delete s k = s
     \<and> get (put s k None) k = Inl (KeyError MaybeDeleted)
     \<and> delete (put s k None) k = put (put s k None) k None
     \<and> delete (put s k None) k = put s k None
     \<and> key_history_store (delete (snd (take_snapshot (put s k None))) k) k =
         Some [\<lparr>snap_id = next_snap_id s, entry_value = None\<rparr>,
               \<lparr>snap_id = next_snap_id s + 1, entry_value = None\<rparr>]
     \<and> (\<not> list_ex (is_write k) cs \<and> 0 \<le> sid \<and> next_snap_id s \<le> sid
          \<and> sid < next_snap_id (run (put s k None) cs) \<longrightarrow>
          get_from_snapshot (run (put s k None) cs) k sid = Inl (KeyError DeletedInSnapshot))"
proof
  assume none: "key_history_store s k = None"
  let ?e = "\<lparr>snap_id = next_snap_id s, entry_value = None\<rparr>"
  have st: "key_history_store (put s k None) k = Some [?e]"
    using none by (rule put_None_unwritten)
  have a: "delete s k = s"
    using none by (simp add: delete_def)
  have b: "get (put s k None) k = Inl (KeyError MaybeDeleted)"
    using st by (simp add: get_def)
  have c: "delete (put s k None) k = put (put s k None) k None"
    using st by (simp add: delete_def)
  have d: "delete (put s k None) k = put s k None"
    using c by (simp add: put_put)
  have e: "key_history_store (delete (snd (take_snapshot (put s k None))) k) k =
         Some [?e, \<lparr>snap_id = next_snap_id s + 1, entry_value = None\<rparr>]"
  proof -
    let ?s1 = "snd (take_snapshot (put s k None))"
    have "timeline ?s1 k = [?e]" "next_snap_id ?s1 = next_snap_id s + 1"
      using st by (simp_all add: timeline_def)
    moreover have "delete ?s1 k = put ?s1 k None"
      using st by (simp add: delete_def)
    ultimately show ?thesis
      by (simp add: put_eq put_history_def)
  qed
  have f: "get_from_snapshot (run (put s k None) cs) k sid = Inl (KeyError DeletedInSnapshot)"
    if "\<not> list_ex (is_write k) cs \<and> 0 \<le> sid \<and> next_snap_id s \<le> sid
          \<and> sid < next_snap_id (run (put s k None) cs)"
  proof -
    have "key_history_store (run (put s k None) cs) k = Some [?e]"
      using that st by (simp add: key_history_store_run_other)
    then have "get_from_snapshot (run (put s k None) cs) k sid = outcome (resolve [?e] sid)"
      using that by (intro gfs_sorted) simp_all
    then show ?thesis
      using that by (simp add: resolve_def outcome_def)
  qed
  show "key_history_store (put s k None) k = Some [?e]
     \<and> delete s k = s
     \<and> get (put s k None) k = Inl (KeyError MaybeDeleted)
     \<and> delete (put s k None) k = put (put s k None) k None
     \<and> delete (put s k None) k = put s k None
     \<and> key_history_store (delete (snd (take_snapshot (put s k None))) k) k =
         Some [?e, \<lparr>snap_id = next_snap_id s + 1, entry_value = None\<rparr>]
     \<and> (\<not> list_ex (is_write k) cs \<and> 0 \<le> sid \<and> next_snap_id s \<le> sid
          \<and> sid < next_snap_id (run (put s k None) cs) \<longrightarrow>
          get_from_snapshot (run (put s k None) cs) k sid = Inl (KeyError DeletedInSnapshot))"
    by (intro conjI impI; (rule st a b c d e | erule f))
qed

theorem put_None_on_unwritten_key_witness:
  "key_history_store init ''a'' = None
   \<and> \<not> list_ex (is_write ''a'') [TakeSnapshot, Put ''b'' (Some 1), TakeSnapshot]
   \<and> (0::int) \<le> 1 \<and> next_snap_id init \<le> 1
   \<and> 1 < next_snap_id (run (put init ''a'' None) [TakeSnapshot, Put ''b'' (Some 1), TakeSnapshot])
   \<and> key_history_store (put init ''a'' None) ''a'' = Some [\<lparr>snap_id = 0, entry_value = None\<rparr>]
   \<and> get (put init ''a'' None) ''a'' = Inl (KeyError MaybeDeleted)
   \<and> get_from_snapshot
        (run (put init ''a'' None) [TakeSnapshot, Put ''b'' (Some 1), TakeSnapshot]) ''a'' 1
        = Inl (KeyError DeletedInSnapshot)"
proof -
  let ?cs = "[TakeSnapshot, Put ''b'' (Some 1), TakeSnapshot]"
  have a: "key_history_store init ''a'' = None" by (simp add: init_def)
  have b: "\<not> list_ex (is_write ''a'') ?cs" by simp
  have c: "next_snap_id init \<le> 1" by (simp add: init_def)
  have d: "1 < next_snap_id (run (put init ''a'' None) ?cs)" by (simp add: ops_defs)
  have e: "next_snap_id init = 0" by (simp add: init_def)
  from put_None_on_unwritten_key [of init "''a''" ?cs 1] a b c d e show ?thesis by simp
qed

text \<open>
  The statement of C10 that a \<^verbatim>\<open>delete(k)\<close> following \<^verbatim>\<open>put(k, None)\<close> is not a no-op fails on a
  new map: with no \<^verbatim>\<open>take_snapshot\<close> between the two calls, the \<^verbatim>\<open>delete\<close> leaves the state
  exactly as the \<^verbatim>\<open>put\<close> left it.
\<close>

theorem delete_after_put_None_counterexample:
  "key_history_store init ''a'' = None
   \<and> delete (put init ''a'' None) ''a'' = put init ''a'' None"
  by (simp add: init_def put_def delete_def)

end
